theory Spec2Isabelle
  imports Main "HOL-Library.Char_ord" "HOL-Library.List_Lexorder"
begin

section \<open>Data model\<close>

text \<open>
  The table \<^verbatim>\<open>metrics\<close> of \<^verbatim>\<open>message.py\<close> has the columns
  \<^verbatim>\<open>id, name, timestamp, count\<close>. The \<^verbatim>\<open>id\<close> is the autoincremented row number and
  no query reads it, so a row is the tuple \<^verbatim>\<open>(name, timestamp, count)\<close> that
  \<^verbatim>\<open>increment\<close> inserts, and the table is the list of its rows in insertion order.
  Names are byte strings; Python's integers are unbounded, hence \<open>int\<close>.
\<close>

type_synonym metrics_row = "string \<times> int \<times> int"

text \<open>One element of the list that \<^verbatim>\<open>get_data\<close> returns:
  \<^verbatim>\<open>{"timestamp": current, "count": ...}\<close>.\<close>

record point =
  timestamp :: int
  count :: int

text \<open>
  The calls into \<^verbatim>\<open>sqlite3\<close> that the three operations make. Each of them may raise;
  which one does (if any) during one operation is an input of the model.
\<close>

datatype db_call = Connect | Cursor | Execute | Fetchall | Commit | Close

text \<open>
  Besides the failures of the storage itself there is one more exception on a
  healthy store: \<^verbatim>\<open>cursor.execute\<close> binds a Python integer to an SQLite
  \<^verbatim>\<open>INTEGER\<close>, which is a signed 64-bit value, and raises \<^verbatim>\<open>OverflowError\<close> for an
  integer outside that range.
\<close>

datatype error = StorageError db_call | OverflowError

definition sqlite_integer :: "int \<Rightarrow> bool" where
  "sqlite_integer v = (- (2 ^ 63) \<le> v \<and> v < 2 ^ 63)"

text \<open>
  An operation returns a value, or propagates the exception of a storage call, or
  never returns: \<^verbatim>\<open>threading.Lock.acquire()\<close> on a lock that is held blocks.
\<close>

datatype 'a outcome = Returned (the_result: 'a) | Raised error | Blocked

text \<open>
  The state of a \<^verbatim>\<open>MetricsCollector\<close>: the rows of \<^verbatim>\<open>metrics.db\<close>, whether
  \<^verbatim>\<open>self.lock\<close> is held, and the number of connections that were opened and not closed.
\<close>

record collector =
  rows :: "metrics_row list"
  lock_held :: bool
  open_conns :: nat

text \<open>
  \<^verbatim>\<open>__init__\<close>: a fresh lock, and \<^verbatim>\<open>CREATE TABLE IF NOT EXISTS\<close>, which keeps the rows
  an earlier run of the process has left in the file.
\<close>

definition init_db :: "metrics_row list \<Rightarrow> collector" where
  "init_db persisted = \<lparr>rows = persisted, lock_held = False, open_conns = 0\<rparr>"

section \<open>increment\<close>

text \<open>
  Lines 36 to 45. The clock reading \<^verbatim>\<open>int(time.time())\<close> is the argument \<open>now\<close>.
  The statements run in the order of the source, with no handler around them: an
  exception leaves the function at the statement that raised it. The inserted row
  is in the table once \<^verbatim>\<open>commit\<close> has returned. \<^verbatim>\<open>execute\<close> (line 41) binds
  \<open>count\<close>, which the caller supplies and nothing has tested, so this is where a
  count outside the 64-bit range raises. The clock reading is bound too; it is
  taken to be in range, as every reading of \<^verbatim>\<open>int(time.time())\<close> is.
\<close>

definition increment ::
  "db_call option \<Rightarrow> string \<Rightarrow> int \<Rightarrow> int \<Rightarrow> collector \<Rightarrow> unit outcome \<times> collector" where
  "increment fault name cnt now s =
    (let ts = now in
     if lock_held s then (Blocked, s) else
     let s1 = s\<lparr>lock_held := True\<rparr> in
     if fault = Some Connect then (Raised (StorageError Connect), s1) else
     let s2 = s1\<lparr>open_conns := open_conns s1 + 1\<rparr> in
     if fault = Some Cursor then (Raised (StorageError Cursor), s2) else
     if fault = Some Execute then (Raised (StorageError Execute), s2) else
     if \<not> sqlite_integer cnt then (Raised OverflowError, s2) else
     if fault = Some Commit then (Raised (StorageError Commit), s2) else
     let s3 = s2\<lparr>rows := rows s2 @ [(name, ts, cnt)]\<rparr> in
     if fault = Some Close then (Raised (StorageError Close), s3) else
     let s4 = s3\<lparr>open_conns := open_conns s3 - 1\<rparr> in
     (Returned (), s4\<lparr>lock_held := False\<rparr>))"

section \<open>get_names\<close>

text \<open>
  Lines 47 to 55. \<^verbatim>\<open>SELECT DISTINCT name FROM metrics ORDER BY name\<close>: the names of
  the table without duplicates, in the order of SQLite's binary collation, which
  compares the bytes of the strings.
\<close>

definition select_distinct_name :: "metrics_row list \<Rightarrow> string list" where
  "select_distinct_name tbl = sort (remdups (map fst tbl))"

definition get_names :: "db_call option \<Rightarrow> collector \<Rightarrow> string list outcome \<times> collector" where
  "get_names fault s =
    (if fault = Some Connect then (Raised (StorageError Connect), s) else
     let s1 = s\<lparr>open_conns := open_conns s + 1\<rparr> in
     if fault = Some Cursor then (Raised (StorageError Cursor), s1) else
     if fault = Some Execute then (Raised (StorageError Execute), s1) else
     if fault = Some Fetchall then (Raised (StorageError Fetchall), s1) else
     let names = fold (\<lambda>row names. names @ [row]) (select_distinct_name (rows s1)) [] in
     if fault = Some Close then (Raised (StorageError Close), s1) else
     let s2 = s1\<lparr>open_conns := open_conns s1 - 1\<rparr> in
     (Returned names, s2))"

section \<open>get_data\<close>

text \<open>
  \<^verbatim>\<open>SELECT timestamp, count FROM metrics WHERE name = ? AND timestamp >= ?\<close>
  (line 62).
\<close>

definition select_timestamp_count :: "string \<Rightarrow> int \<Rightarrow> metrics_row list \<Rightarrow> (int \<times> int) list" where
  "select_timestamp_count name start_time tbl =
     map snd (filter (\<lambda>(n, ts, cnt). n = name \<and> start_time \<le> ts) tbl)"

text \<open>The body of the loop over the fetched rows (lines 69 to 73).\<close>

definition add_row :: "int \<times> int \<Rightarrow> (int \<rightharpoonup> int) \<Rightarrow> (int \<rightharpoonup> int)" where
  "add_row row buckets =
    (case row of (ts, cnt) \<Rightarrow>
      let bucket = (ts div 300) * 300 in
      (case buckets bucket of
         Some v \<Rightarrow> buckets(bucket \<mapsto> v + cnt)
       | None \<Rightarrow> buckets(bucket \<mapsto> cnt)))"

text \<open>The loop that fills the result (lines 77 to 82).\<close>

function fill :: "int \<Rightarrow> int \<Rightarrow> (int \<rightharpoonup> int) \<Rightarrow> point list \<Rightarrow> point list" where
  "fill current end_time buckets result =
    (if current \<le> end_time then
       fill (current + 300) end_time buckets
         (result @ [case buckets current of
                      Some v \<Rightarrow> \<lparr>timestamp = current, count = v\<rparr>
                    | None \<Rightarrow> \<lparr>timestamp = current, count = 0\<rparr>])
     else result)"
  by pat_completeness auto
termination
  by (relation "measure (\<lambda>(current, end_time, buckets, result). nat (end_time - current + 1))") auto

declare fill.simps [simp del]

text \<open>Lines 57 to 84.\<close>

definition get_data ::
  "db_call option \<Rightarrow> string \<Rightarrow> int \<Rightarrow> collector \<Rightarrow> point list outcome \<times> collector" where
  "get_data fault name now s =
    (if fault = Some Connect then (Raised (StorageError Connect), s) else
     let s1 = s\<lparr>open_conns := open_conns s + 1\<rparr> in
     if fault = Some Cursor then (Raised (StorageError Cursor), s1) else
     let end_time = now;
         start_time = end_time - 86400 in
     if fault = Some Execute then (Raised (StorageError Execute), s1) else
     if fault = Some Fetchall then (Raised (StorageError Fetchall), s1) else
     let fetched = select_timestamp_count name start_time (rows s1) in
     if fault = Some Close then (Raised (StorageError Close), s1) else
     let s2 = s1\<lparr>open_conns := open_conns s1 - 1\<rparr>;
         buckets = fold add_row fetched Map.empty;
         current = (start_time div 300) * 300 in
     (Returned (fill current end_time buckets []), s2))"

section \<open>Auxiliary notions\<close>

text \<open>The count the result loop reads for a bucket start: the entry of the
  dictionary, and 0 where there is none.\<close>

definition count_or_zero :: "(int \<rightharpoonup> int) \<Rightarrow> int \<Rightarrow> int" where
  "count_or_zero buckets k = (case buckets k of Some v \<Rightarrow> v | None \<Rightarrow> 0)"

text \<open>The element the result loop appends for the bucket start \<open>current\<close>.\<close>

definition emit :: "(int \<rightharpoonup> int) \<Rightarrow> int \<Rightarrow> point" where
  "emit buckets current =
     (case buckets current of
        Some v \<Rightarrow> \<lparr>timestamp = current, count = v\<rparr>
      | None \<Rightarrow> \<lparr>timestamp = current, count = 0\<rparr>)"

section \<open>The result loop\<close>

lemma emit_eq: "emit buckets k = \<lparr>timestamp = k, count = count_or_zero buckets k\<rparr>"
  by (simp add: emit_def count_or_zero_def split: option.split)

text \<open>The loop appends one element for each of the bucket starts
  \<open>current, current + 300, ...\<close> up to \<open>end_time\<close>.\<close>

lemma fill_steps:
  "fill current end_time buckets result =
     result @ map (\<lambda>i. emit buckets (current + 300 * int i))
                  [0..<nat ((end_time - current) div 300 + 1)]"
proof (induction current end_time buckets result rule: fill.induct)
  case (1 current end_time buckets result)
  show ?case
  proof (cases "current \<le> end_time")
    case False
    then have "(end_time - current) div 300 + 1 \<le> 0" by simp
    with False show ?thesis by (simp add: fill.simps)
  next
    case True
    define n where "n = nat ((end_time - (current + 300)) div 300 + 1)"
    have n: "nat ((end_time - current) div 300 + 1) = Suc n"
    proof -
      have "(end_time - current) div 300 = (end_time - (current + 300)) div 300 + 1"
        by simp
      moreover have "0 \<le> (end_time - current) div 300" using True by simp
      ultimately show ?thesis unfolding n_def by simp
    qed
    have "fill current end_time buckets result =
          fill (current + 300) end_time buckets (result @ [emit buckets current])"
      using True by (subst fill.simps) (simp add: emit_def)
    also have "\<dots> = (result @ [emit buckets current]) @
                 map (\<lambda>i. emit buckets (current + 300 + 300 * int i)) [0..<n]"
      using "1.IH" [OF True] unfolding n_def emit_def by simp
    also have "\<dots> = result @ map (\<lambda>i. emit buckets (current + 300 * int i)) [0..<Suc n]"
      by (simp add: map_upt_Suc del: upt_Suc) (simp add: algebra_simps)
    finally show ?thesis by (simp only: n)
  qed
qed

section \<open>The aggregation loop\<close>

lemma add_row_lookup:
  "count_or_zero (add_row row buckets) k =
     count_or_zero buckets k + (if (fst row div 300) * 300 = k then snd row else 0)"
  by (cases row) (simp add: add_row_def count_or_zero_def Let_def split: option.split)

lemma fold_add_row_lookup:
  "count_or_zero (fold add_row rs buckets) k =
     count_or_zero buckets k + sum_list (map snd (filter (\<lambda>r. (fst r div 300) * 300 = k) rs))"
  by (induction rs arbitrary: buckets) (simp_all add: add_row_lookup)

lemma bucket_iff:
  assumes "300 dvd (k::int)"
  shows "((ts div 300) * 300 = k) = (k \<le> ts \<and> ts < k + 300)"
proof -
  from assms obtain j where k: "k = 300 * j" by (auto simp: dvd_def)
  have "(ts div 300 = j) = (300 * j \<le> ts \<and> ts < 300 * j + 300)"
    by auto
  then show ?thesis unfolding k by auto
qed

lemma fetched_sum:
  "sum_list (map snd (filter (\<lambda>r. P (fst r)) (select_timestamp_count name start tbl))) =
   sum_list (map (\<lambda>(n, ts, cnt). cnt)
     (filter (\<lambda>(n, ts, cnt). n = name \<and> start \<le> ts \<and> P ts) tbl))"
  by (induction tbl) (auto simp: select_timestamp_count_def)

lemma bucket_count:
  assumes "300 dvd k"
  shows "count_or_zero (fold add_row (select_timestamp_count name start tbl) Map.empty) k =
     sum_list (map (\<lambda>(n, ts, cnt). cnt)
       (filter (\<lambda>(n, ts, cnt). n = name \<and> start \<le> ts \<and> k \<le> ts \<and> ts < k + 300) tbl))"
proof -
  have "count_or_zero (fold add_row (select_timestamp_count name start tbl) Map.empty) k =
        sum_list (map snd (filter (\<lambda>r. (fst r div 300) * 300 = k)
                    (select_timestamp_count name start tbl)))"
    using fold_add_row_lookup [of "select_timestamp_count name start tbl" Map.empty k]
    by (simp add: count_or_zero_def)
  also have "\<dots> = sum_list (map (\<lambda>(n, ts, cnt). cnt)
       (filter (\<lambda>(n, ts, cnt). n = name \<and> start \<le> ts \<and> (ts div 300) * 300 = k) tbl))"
    by (rule fetched_sum)
  finally show ?thesis by (simp add: bucket_iff [OF assms])
qed

section \<open>get_data when no storage call raises\<close>

lemma get_data_ok:
  "get_data None name now s =
     (Returned (map (\<lambda>i. emit (fold add_row
                                 (select_timestamp_count name (now - 86400) (rows s)) Map.empty)
                            (((now - 86400) div 300) * 300 + 300 * int i)) [0..<289]), s)"
proof -
  have "nat ((now - (now - 86400) div 300 * 300) div 300 + 1) = 289"
    by simp
  then show ?thesis
    by (simp add: get_data_def Let_def fill_steps)
qed

lemma series_nth:
  assumes "get_data None name now s = (Returned xs, s')" "i < 289"
  shows "length xs = 289"
    and "timestamp (xs ! i) = ((now - 86400) div 300) * 300 + 300 * int i"
    and "xs ! i \<in> set xs"
proof -
  from assms(1) have xs: "xs = map (\<lambda>i. emit (fold add_row
                                 (select_timestamp_count name (now - 86400) (rows s)) Map.empty)
                            (((now - 86400) div 300) * 300 + 300 * int i)) [0..<289]"
    by (auto simp: get_data_ok)
  show len: "length xs = 289" by (simp add: xs)
  show "timestamp (xs ! i) = ((now - 86400) div 300) * 300 + 300 * int i"
    using assms(2) unfolding xs by (simp add: emit_eq del: upt_Suc)
  show "xs ! i \<in> set xs" using len assms(2) by simp
qed

text \<open>Lemmas on the series as a whole: the count of one of its elements, and the
  sum of all of them.\<close>

lemma series_count:
  assumes "get_data None name now s = (Returned xs, s')" "p \<in> set xs"
  shows "count p =
        sum_list (map (\<lambda>(n, ts, cnt). cnt)
          (filter (\<lambda>(n, ts, cnt). n = name \<and> now - 86400 \<le> ts \<and>
                                    timestamp p \<le> ts \<and> ts < timestamp p + 300) (rows s)))"
  using assms by (auto simp: get_data_ok emit_eq bucket_count)

lemma sum_list_indicator:
  "distinct ks \<Longrightarrow>
   sum_list (map (\<lambda>k. if a = k then (v::int) else 0) ks) = (if a \<in> set ks then v else 0)"
  by (induction ks) auto

lemma sum_over_keys:
  assumes "distinct ks"
  shows "sum_list (map (\<lambda>k. sum_list (map snd (filter (\<lambda>r. f r = k) rs))) ks) =
         sum_list (map snd (filter (\<lambda>r. f r \<in> set ks) (rs :: ('a \<times> int) list)))"
proof (induction rs)
  case Nil
  show ?case by simp
next
  case (Cons r rs)
  have "sum_list (map (\<lambda>k. sum_list (map snd (filter (\<lambda>r. f r = k) (r # rs)))) ks) =
        sum_list (map (\<lambda>k. (if f r = k then snd r else 0) +
                              sum_list (map snd (filter (\<lambda>r. f r = k) rs))) ks)"
    by (rule arg_cong [where f = sum_list]) simp
  also have "\<dots> = sum_list (map (\<lambda>k. if f r = k then snd r else 0) ks) +
                   sum_list (map (\<lambda>k. sum_list (map snd (filter (\<lambda>r. f r = k) rs))) ks)"
    by (simp add: sum_list_addf)
  also have "\<dots> = (if f r \<in> set ks then snd r else 0) +
                   sum_list (map snd (filter (\<lambda>r. f r \<in> set ks) rs))"
    by (simp only: sum_list_indicator [OF assms] Cons.IH)
  finally show ?case by simp
qed

lemma starts_distinct: "distinct (map (\<lambda>i. (c::int) + 300 * int i) [0..<n])"
  by (simp add: distinct_map inj_on_def)

lemma start_div: "(now - 86400) div 300 = now div 300 - (288::int)"
  by simp

lemma in_starts:
  assumes "now - 86400 \<le> ts"
  shows "((ts div 300) * 300 \<in> set (map (\<lambda>i. ((now - 86400) div 300) * 300 + 300 * int i) [0..<289]))
           = (ts div 300 \<le> now div 300)"
proof -
  have lo: "now div 300 - 288 \<le> ts div 300"
  proof -
    have "(now - 86400) div 300 \<le> ts div 300" using assms by (rule zdiv_mono1) simp
    then show ?thesis by simp
  qed
  show ?thesis
  proof
    assume "(ts div 300) * 300 \<in> set (map (\<lambda>i. ((now - 86400) div 300) * 300 + 300 * int i) [0..<289])"
    then obtain i where "i < 289" "(ts div 300) * 300 = ((now - 86400) div 300) * 300 + 300 * int i"
      by auto
    then show "ts div 300 \<le> now div 300" by simp
  next
    assume hi: "ts div 300 \<le> now div 300"
    define i where "i = nat (ts div 300 - (now div 300 - 288))"
    have "i < 289" using lo hi unfolding i_def by simp
    moreover have "(ts div 300) * 300 = ((now - 86400) div 300) * 300 + 300 * int i"
      using lo unfolding i_def start_div by simp
    ultimately show "(ts div 300) * 300 \<in> set (map (\<lambda>i. ((now - 86400) div 300) * 300 + 300 * int i) [0..<289])"
      by (auto simp del: upt_Suc)
  qed
qed

lemma series_total:
  assumes "get_data None name now s = (Returned xs, s')"
  shows "sum_list (map count xs) =
     sum_list (map (\<lambda>(n, ts, cnt). cnt)
       (filter (\<lambda>(n, ts, cnt). n = name \<and> now - 86400 \<le> ts \<and> ts div 300 \<le> now div 300) (rows s)))"
proof -
  let ?ks = "map (\<lambda>i. ((now - 86400) div 300) * 300 + 300 * int i) [0..<289]"
  let ?fetched = "select_timestamp_count name (now - 86400) (rows s)"
  let ?b = "fold add_row ?fetched Map.empty"
  from assms have xs: "xs = map (emit ?b) ?ks"
    by (auto simp: get_data_ok comp_def simp del: upt_Suc)
  have "map count xs = map (\<lambda>k. sum_list (map snd (filter (\<lambda>r. (fst r div 300) * 300 = k) ?fetched))) ?ks"
    unfolding xs using fold_add_row_lookup [of ?fetched Map.empty]
    by (simp add: emit_eq comp_def count_or_zero_def del: upt_Suc)
  then have "sum_list (map count xs) =
        sum_list (map snd (filter (\<lambda>r. (fst r div 300) * 300 \<in> set ?ks) ?fetched))"
    by (simp only: sum_over_keys [OF starts_distinct])
  also have "\<dots> = sum_list (map (\<lambda>(n, ts, cnt). cnt)
       (filter (\<lambda>(n, ts, cnt). n = name \<and> now - 86400 \<le> ts \<and> (ts div 300) * 300 \<in> set ?ks) (rows s)))"
    by (rule fetched_sum)
  also have "\<dots> = sum_list (map (\<lambda>(n, ts, cnt). cnt)
       (filter (\<lambda>(n, ts, cnt). n = name \<and> now - 86400 \<le> ts \<and> ts div 300 \<le> now div 300) (rows s)))"
    by (rule arg_cong [where f = "\<lambda>l. sum_list (map (\<lambda>(n, ts, cnt). cnt) l)"], rule filter_cong)
       (auto simp only: in_starts split: prod.splits)
  finally show ?thesis .
qed

lemma increment_ok:
  "\<not> lock_held s \<Longrightarrow> sqlite_integer cnt \<Longrightarrow>
   increment None name cnt now s = (Returned (), s\<lparr>rows := rows s @ [(name, now, cnt)]\<rparr>)"
  by (simp add: increment_def Let_def)

lemma fold_append_each: "fold (\<lambda>row names. names @ [row]) xs acc = acc @ xs"
  by (induction xs arbitrary: acc) simp_all

lemma get_names_ok: "get_names None s = (Returned (select_distinct_name (rows s)), s)"
  by (simp add: get_names_def Let_def fold_append_each)

text \<open>The effect of one more selected row on the series.\<close>

lemma emit_add_row:
  "emit (add_row (ts, cnt) buckets) k =
     (if timestamp (emit buckets k) = (ts div 300) * 300
      then (emit buckets k)\<lparr>count := count (emit buckets k) + cnt\<rparr>
      else emit buckets k)"
  by (auto simp: emit_eq add_row_lookup)

lemma select_append_selected:
  "start \<le> ts \<Longrightarrow>
   select_timestamp_count name start (tbl @ [(name, ts, cnt)]) =
     select_timestamp_count name start tbl @ [(ts, cnt)]"
  by (simp add: select_timestamp_count_def)

lemma div_le_before_next:
  assumes "ts < (now div 300) * 300 + 300"
  shows "ts div 300 \<le> now div (300::int)"
proof -
  from assms have "ts \<le> (now div 300) * 300 + 299" by simp
  then have "ts div 300 \<le> ((now div 300) * 300 + 299) div 300"
    by (rule zdiv_mono1) simp
  also have "\<dots> = now div 300" by simp
  finally show ?thesis .
qed

lemma filtered_sum_nonneg:
  "\<forall>r\<in>set rs. P r \<longrightarrow> 0 \<le> f r \<Longrightarrow> (0::int) \<le> sum_list (map f (filter P rs))"
  by (induction rs) auto

section \<open>Claims\<close>

text \<open>
  C1. The count that \<^verbatim>\<open>get_data\<close> reports for a bucket is the sum of the counts of
  the stored events of that name that the query selects (timestamp at least
  \<open>now - 86400\<close>) and whose timestamps lie in the 300 seconds of the bucket. The
  table is a list, so events with equal timestamps, and equal events, are each
  added.
\<close>

theorem bucket_count_is_sum:
  "\<exists>xs. get_data None name now s = (Returned xs, s) \<and>
     (\<forall>p\<in>set xs. count p =
        sum_list (map (\<lambda>(n, ts, cnt). cnt)
          (filter (\<lambda>(n, ts, cnt). n = name \<and> now - 86400 \<le> ts \<and>
                                    timestamp p \<le> ts \<and> ts < timestamp p + 300) (rows s))))"
  by (auto simp: get_data_ok emit_eq bucket_count)

theorem bucket_count_is_sum_witness:
  "\<exists>xs. get_data None ''x'' 1000
           (init_db [(''x'', 900, 3), (''y'', 950, 1), (''x'', 950, 2), (''x'', 950, 2)])
         = (Returned xs,
            init_db [(''x'', 900, 3), (''y'', 950, 1), (''x'', 950, 2), (''x'', 950, 2)]) \<and>
        (\<exists>p\<in>set xs. timestamp p = 900 \<and> count p = 7)"
proof -
  let ?s = "init_db [(''x'', 900, 3), (''y'', 950, 1), (''x'', 950, 2), (''x'', 950, 2)]"
  from bucket_count_is_sum [of "''x''" 1000 ?s]
  obtain xs where xs: "get_data None ''x'' 1000 ?s = (Returned xs, ?s)"
    and total: "\<forall>p\<in>set xs. count p =
        sum_list (map (\<lambda>(n, ts, cnt). cnt)
          (filter (\<lambda>(n, ts, cnt). n = ''x'' \<and> 1000 - 86400 \<le> ts \<and>
                                    timestamp p \<le> ts \<and> ts < timestamp p + 300) (rows ?s)))"
    by blast
  have mem: "xs ! 288 \<in> set xs" and ts: "timestamp (xs ! 288) = 900"
    using series_nth [OF xs, of 288] by simp_all
  from total mem ts have "count (xs ! 288) = 7"
    by (simp add: init_db_def)
  with xs mem ts show ?thesis by blast
qed

text \<open>
  C2. Whatever the table holds and whatever the clock reads, \<^verbatim>\<open>get_data\<close>
  returns 289 elements; the first timestamp is \<open>(now - 86400) div 300 * 300\<close>, each
  next one is 300 more, and an element whose 300 seconds hold no selected event of
  the name has count 0.
\<close>

theorem series_has_289_contiguous_buckets:
  "\<exists>xs. get_data None name now s = (Returned xs, s) \<and>
     length xs = 289 \<and>
     timestamp (xs ! 0) = ((now - 86400) div 300) * 300 \<and>
     (\<forall>i<288. timestamp (xs ! Suc i) = timestamp (xs ! i) + 300) \<and>
     (\<forall>p\<in>set xs.
        (\<forall>(n, ts, cnt)\<in>set (rows s).
           \<not> (n = name \<and> now - 86400 \<le> ts \<and> timestamp p \<le> ts \<and> ts < timestamp p + 300))
        \<longrightarrow> count p = 0)"
proof -
  obtain xs where xs: "get_data None name now s = (Returned xs, s)"
    by (simp add: get_data_ok)
  have "length xs = 289"
    using series_nth(1) [OF xs, of 0] by simp
  moreover have "timestamp (xs ! 0) = ((now - 86400) div 300) * 300"
    using series_nth(2) [OF xs, of 0] by simp
  moreover have "\<forall>i<288. timestamp (xs ! Suc i) = timestamp (xs ! i) + 300"
  proof (intro allI impI)
    fix i :: nat
    assume "i < 288"
    then show "timestamp (xs ! Suc i) = timestamp (xs ! i) + 300"
      using series_nth(2) [OF xs, of i] series_nth(2) [OF xs, of "Suc i"] by simp
  qed
  moreover have "\<forall>p\<in>set xs.
        (\<forall>(n, ts, cnt)\<in>set (rows s).
           \<not> (n = name \<and> now - 86400 \<le> ts \<and> timestamp p \<le> ts \<and> ts < timestamp p + 300))
        \<longrightarrow> count p = 0"
  proof (intro ballI impI)
    fix p
    assume p: "p \<in> set xs"
      and none: "\<forall>(n, ts, cnt)\<in>set (rows s).
           \<not> (n = name \<and> now - 86400 \<le> ts \<and> timestamp p \<le> ts \<and> ts < timestamp p + 300)"
    from none have "filter (\<lambda>(n, ts, cnt). n = name \<and> now - 86400 \<le> ts \<and>
                                    timestamp p \<le> ts \<and> ts < timestamp p + 300) (rows s) = []"
      by (auto simp: filter_empty_conv)
    then show "count p = 0"
      by (simp add: series_count [OF xs p])
  qed
  ultimately show ?thesis using xs by blast
qed

theorem series_has_289_contiguous_buckets_witness:
  "\<exists>xs. get_data None ''x'' 1000 (init_db [(''x'', 950, 2)]) = (Returned xs, init_db [(''x'', 950, 2)]) \<and>
     length xs = 289 \<and> timestamp (xs ! 0) = - 85500 \<and> timestamp (xs ! 1) = - 85200 \<and>
     count (xs ! 0) = 0"
proof -
  let ?s = "init_db [(''x'', 950, 2)]"
  from series_has_289_contiguous_buckets [of "''x''" 1000 ?s]
  obtain xs where xs: "get_data None ''x'' 1000 ?s = (Returned xs, ?s)"
    and len: "length xs = 289"
    and first: "timestamp (xs ! 0) = ((1000 - 86400) div 300) * 300"
    and step: "\<forall>i<288. timestamp (xs ! Suc i) = timestamp (xs ! i) + 300"
    and zero: "\<forall>p\<in>set xs.
        (\<forall>(n, ts, cnt)\<in>set (rows ?s).
           \<not> (n = ''x'' \<and> 1000 - 86400 \<le> ts \<and> timestamp p \<le> ts \<and> ts < timestamp p + 300))
        \<longrightarrow> count p = 0"
    by blast
  from first have t0: "timestamp (xs ! 0) = - 85500" by simp
  from step have "timestamp (xs ! Suc 0) = timestamp (xs ! 0) + 300" by simp
  with t0 have t1: "timestamp (xs ! 1) = - 85200" by simp
  from len have "xs ! 0 \<in> set xs" by simp
  with zero t0 have "count (xs ! 0) = 0" by (simp add: init_db_def)
  with xs len t0 t1 show ?thesis by blast
qed



text \<open>
  C6. \<^verbatim>\<open>get_names\<close> returns the names that occur in the table, strictly
  increasing in the lexicographic order of their bytes (so sorted and without
  duplicates); it leaves the collector as it was, so a second call returns the
  same; and after an \<^verbatim>\<open>increment\<close> that returns (the lock is free and the
  count fits the storage's 64 bits) the names are the earlier ones and the new one.
\<close>

theorem get_names_sorted_distinct:
  "\<exists>ns. get_names None s = (Returned ns, s) \<and>
     set ns = fst ` set (rows s) \<and> sorted_wrt (<) ns \<and>
     get_names None (snd (get_names None s)) = get_names None s \<and>
     (\<not> lock_held s \<and> sqlite_integer cnt \<longrightarrow>
        (\<exists>s' ns'. increment None name cnt now s = (Returned (), s') \<and>
           get_names None s' = (Returned ns', s') \<and> set ns' = insert name (set ns)))"
proof -
  let ?ns = "select_distinct_name (rows s)"
  have "set ?ns = fst ` set (rows s)"
    by (simp add: select_distinct_name_def)
  moreover have "sorted_wrt (<) ?ns"
    by (simp add: select_distinct_name_def strict_sorted_iff)
  moreover have "get_names None (snd (get_names None s)) = get_names None s"
    by (simp add: get_names_ok)
  moreover have "\<not> lock_held s \<and> sqlite_integer cnt \<longrightarrow>
        (\<exists>s' ns'. increment None name cnt now s = (Returned (), s') \<and>
           get_names None s' = (Returned ns', s') \<and> set ns' = insert name (set ?ns))"
    by (auto simp: increment_ok get_names_ok select_distinct_name_def)
  ultimately show ?thesis
    using get_names_ok [of s] by blast
qed

theorem get_names_sorted_distinct_witness:
  "\<not> lock_held (init_db [(''b'', 10, 1), (''a'', 20, 1), (''b'', 30, 2), (''ab'', 40, 1)]) \<and>
   get_names None (init_db [(''b'', 10, 1), (''a'', 20, 1), (''b'', 30, 2), (''ab'', 40, 1)])
     = (Returned [''a'', ''ab'', ''b''],
        init_db [(''b'', 10, 1), (''a'', 20, 1), (''b'', 30, 2), (''ab'', 40, 1)]) \<and>
   (\<exists>s' ns'. increment None ''c'' 1 50
                (init_db [(''b'', 10, 1), (''a'', 20, 1), (''b'', 30, 2), (''ab'', 40, 1)])
                = (Returned (), s') \<and>
      get_names None s' = (Returned ns', s') \<and> set ns' = {''a'', ''ab'', ''b'', ''c''})"
proof -
  define s where "s = init_db [(''b'', 10, 1), (''a'', 20, 1), (''b'', 30, 2), (''ab'', 40, 1)]"
  define c where "c = ''c''"
  have free: "\<not> lock_held s" by (simp add: s_def init_db_def)
  have fits: "sqlite_integer 1" by (simp add: sqlite_integer_def)
  have "\<exists>ns. get_names None s = (Returned ns, s) \<and>
     set ns = fst ` set (rows s) \<and> sorted_wrt (<) ns \<and>
     get_names None (snd (get_names None s)) = get_names None s \<and>
     (\<not> lock_held s \<and> sqlite_integer 1 \<longrightarrow>
        (\<exists>s' ns'. increment None c 1 50 s = (Returned (), s') \<and>
           get_names None s' = (Returned ns', s') \<and> set ns' = insert c (set ns)))"
    by (rule get_names_sorted_distinct)
  then obtain ns where ns: "get_names None s = (Returned ns, s)"
    and set: "set ns = fst ` set (rows s)" and sorted: "sorted_wrt (<) ns"
    and imp: "\<not> lock_held s \<and> sqlite_integer 1 \<longrightarrow>
        (\<exists>s' ns'. increment None c 1 50 s = (Returned (), s') \<and>
           get_names None s' = (Returned ns', s') \<and> set ns' = insert c (set ns))"
    by blast
  from imp free fits obtain s' ns' where after: "increment None c 1 50 s = (Returned (), s')"
       "get_names None s' = (Returned ns', s')" "set ns' = insert c (set ns)"
    by blast
  from set have "set ns = set [''a'', ''ab'', ''b'']"
    by (auto simp: s_def init_db_def)
  moreover have "sorted_wrt (<) [''a'', ''ab'', ''b'']"
    by (simp add: less_char_def)
  ultimately have eq: "ns = [''a'', ''ab'', ''b'']"
    using sorted by (metis strict_sorted_equal)
  from after(3) have "set ns' = {''a'', ''ab'', ''b'', ''c''}"
    unfolding eq c_def by auto
  with after(1,2) have "\<exists>s' ns'. increment None c 1 50 s = (Returned (), s') \<and>
      get_names None s' = (Returned ns', s') \<and> set ns' = {''a'', ''ab'', ''b'', ''c''}"
    by blast
  with free ns eq show ?thesis unfolding s_def c_def by simp
qed




text \<open>
  C10. When every stored event of the name has its timestamp between \<open>now - 86400\<close>
  and \<open>now\<close>, the counts of the 289 elements add up to the sum of the counts of
  those events.
\<close>

theorem count_conservation:
  assumes "\<forall>(n, ts, cnt)\<in>set (rows s). n = name \<longrightarrow> now - 86400 \<le> ts \<and> ts \<le> now"
  shows "\<exists>xs. get_data None name now s = (Returned xs, s) \<and> length xs = 289 \<and>
           sum_list (map count xs) =
           sum_list (map (\<lambda>(n, ts, cnt). cnt) (filter (\<lambda>(n, ts, cnt). n = name) (rows s)))"
proof -
  obtain xs where xs: "get_data None name now s = (Returned xs, s)"
    by (simp add: get_data_ok)
  have len: "length xs = 289"
    using series_nth(1) [OF xs, of 0] by simp
  have "filter (\<lambda>(n, ts, cnt). n = name \<and> now - 86400 \<le> ts \<and> ts div 300 \<le> now div 300) (rows s) =
        filter (\<lambda>(n, ts, cnt). n = name) (rows s)"
  proof (rule filter_cong [OF refl])
    fix r
    assume r: "r \<in> set (rows s)"
    obtain n ts cnt where [simp]: "r = (n, ts, cnt)" by (cases r)
    from assms r have "n = name \<longrightarrow> now - 86400 \<le> ts \<and> ts \<le> now" by auto
    moreover have "ts \<le> now \<Longrightarrow> ts div 300 \<le> now div 300" by (rule zdiv_mono1) simp_all
    ultimately show "(case r of (n, ts, cnt) \<Rightarrow> n = name \<and> now - 86400 \<le> ts \<and> ts div 300 \<le> now div 300) =
        (case r of (n, ts, cnt) \<Rightarrow> n = name)"
      by auto
  qed
  then have "sum_list (map count xs) =
           sum_list (map (\<lambda>(n, ts, cnt). cnt) (filter (\<lambda>(n, ts, cnt). n = name) (rows s)))"
    by (simp add: series_total [OF xs])
  with xs len show ?thesis by blast
qed

theorem count_conservation_witness:
  "\<exists>xs. get_data None ''x'' 1000 (init_db [(''x'', 900, 3), (''x'', - 85400, 4), (''y'', 5, 1)])
           = (Returned xs, init_db [(''x'', 900, 3), (''x'', - 85400, 4), (''y'', 5, 1)]) \<and>
        length xs = 289 \<and> sum_list (map count xs) = 7"
proof -
  let ?s = "init_db [(''x'', 900, 3), (''x'', - 85400, 4), (''y'', 5, 1)]"
  have h: "\<forall>(n, ts, cnt)\<in>set (rows ?s). n = ''x'' \<longrightarrow> 1000 - 86400 \<le> ts \<and> ts \<le> 1000"
    by (simp add: init_db_def)
  from count_conservation [OF h]
  obtain xs where "get_data None ''x'' 1000 ?s = (Returned xs, ?s)" "length xs = 289"
    "sum_list (map count xs) =
       sum_list (map (\<lambda>(n, ts, cnt). cnt) (filter (\<lambda>(n, ts, cnt). n = ''x'') (rows ?s)))"
    by blast
  moreover have "sum_list (map (\<lambda>(n, ts, cnt). cnt)
                   (filter (\<lambda>(n, ts, cnt). n = ''x'') (rows ?s))) = 7"
    by (simp add: init_db_def)
  ultimately show ?thesis by auto
qed

text \<open>
  C3. An event of the name contributes to the series when the query selects it
  (\<open>now - 86400 \<le> ts\<close>) and its timestamp \<open>ts\<close> lies before the end of the last
  bucket. Such an event goes to the bucket that starts at \<open>ts div 300 * 300\<close>
  (\<open>div\<close> on \<open>int\<close> rounds down, as Python's \<^verbatim>\<open>//\<close> does): that start is at most
  \<open>ts\<close> and less than 300 below it, the series has an element with that
  timestamp, and storing the event changes the series at that element only, whose
  count grows by the event's count.
\<close>

theorem event_bucket_is_floor:
  assumes "now - 86400 \<le> ts" and "ts < (now div 300) * 300 + 300"
  shows "\<exists>xs. get_data None name now s = (Returned xs, s) \<and>
     (ts div 300) * 300 \<le> ts \<and> ts < (ts div 300) * 300 + 300 \<and>
     (\<exists>p\<in>set xs. timestamp p = (ts div 300) * 300) \<and>
     fst (get_data None name now (s\<lparr>rows := rows s @ [(name, ts, cnt)]\<rparr>)) =
       Returned (map (\<lambda>p. if timestamp p = (ts div 300) * 300
                           then p\<lparr>count := count p + cnt\<rparr> else p) xs)"
proof -
  let ?ks = "map (\<lambda>i. ((now - 86400) div 300) * 300 + 300 * int i) [0..<289]"
  let ?b = "fold add_row (select_timestamp_count name (now - 86400) (rows s)) Map.empty"
  define xs where "xs = map (emit ?b) ?ks"
  have xs: "get_data None name now s = (Returned xs, s)"
    by (simp add: get_data_ok xs_def comp_def del: upt_Suc)
  have width: "(ts div 300) * 300 \<le> ts \<and> ts < (ts div 300) * 300 + 300"
    using bucket_iff [of "(ts div 300) * 300" ts] by simp
  have "ts div 300 \<le> now div 300"
    using assms(2) by (rule div_le_before_next)
  then have "(ts div 300) * 300 \<in> set ?ks"
    by (simp only: in_starts [OF assms(1)])
  then have "(ts div 300) * 300 \<in> timestamp ` set xs"
    by (simp add: xs_def emit_eq image_image del: upt_Suc)
  then have present: "\<exists>p\<in>set xs. timestamp p = (ts div 300) * 300"
    by auto
  have "fst (get_data None name now (s\<lparr>rows := rows s @ [(name, ts, cnt)]\<rparr>)) =
        Returned (map (emit (add_row (ts, cnt) ?b)) ?ks)"
    by (simp add: get_data_ok select_append_selected [OF assms(1)] comp_def del: upt_Suc)
  also have "map (emit (add_row (ts, cnt) ?b)) ?ks =
        map (\<lambda>p. if timestamp p = (ts div 300) * 300
                           then p\<lparr>count := count p + cnt\<rparr> else p) xs"
    unfolding xs_def by (simp add: emit_add_row comp_def del: upt_Suc)
  finally show ?thesis using xs width present by blast
qed

theorem event_bucket_is_floor_witness:
  "\<exists>xs. get_data None ''x'' 1000 (init_db [(''x'', 900, 3)]) = (Returned xs, init_db [(''x'', 900, 3)]) \<and>
     (\<exists>p\<in>set xs. timestamp p = 600) \<and>
     fst (get_data None ''x'' 1000 ((init_db [(''x'', 900, 3)])\<lparr>rows := rows (init_db [(''x'', 900, 3)]) @ [(''x'', 899, 4)]\<rparr>)) =
       Returned (map (\<lambda>p. if timestamp p = 600 then p\<lparr>count := count p + 4\<rparr> else p) xs)"
proof -
  have h1: "(1000::int) - 86400 \<le> 899" and h2: "(899::int) < (1000 div 300) * 300 + 300"
    by simp_all
  have "((899::int) div 300) * 300 = 600" by simp
  with event_bucket_is_floor [OF h1 h2, of "''x''" "init_db [(''x'', 900, 3)]" 4]
  show ?thesis by simp
qed

text \<open>
  C5. As stated the claim fails: \<^verbatim>\<open>increment\<close> accepts negative counts, and an
  earlier event of the same name can cancel the new one. It holds when the events
  of the name that the query selects have counts that are not negative: then,
  after an \<^verbatim>\<open>increment\<close> of \<open>c \<ge> 1\<close> that returns (the lock is free and \<open>c\<close>
  fits the storage's 64 bits), \<^verbatim>\<open>get_data\<close> at the same clock
  reading has an element whose 300 seconds contain \<open>now\<close>, every such element has
  a count other than 0, and the counts add up to at least \<open>c\<close>.
\<close>

theorem record_then_series:
  assumes "\<not> lock_held s" and "1 \<le> c" and "c < 2 ^ 63"
    and "\<forall>(n, ts, cnt)\<in>set (rows s). n = x \<and> now - 86400 \<le> ts \<longrightarrow> 0 \<le> cnt"
  shows "\<exists>s' xs. increment None x c now s = (Returned (), s') \<and>
           get_data None x now s' = (Returned xs, s') \<and>
           (\<exists>p\<in>set xs. timestamp p \<le> now \<and> now < timestamp p + 300) \<and>
           (\<forall>p\<in>set xs. timestamp p \<le> now \<and> now < timestamp p + 300 \<longrightarrow> count p \<noteq> 0) \<and>
           c \<le> sum_list (map count xs)"
proof -
  define s' where "s' = s\<lparr>rows := rows s @ [(x, now, c)]\<rparr>"
  have inc: "increment None x c now s = (Returned (), s')"
    unfolding s'_def using assms(1,2,3) by (intro increment_ok) (simp_all add: sqlite_integer_def)
  obtain xs where xs: "get_data None x now s' = (Returned xs, s')"
    by (simp add: get_data_ok)
  have rows': "rows s' = rows s @ [(x, now, c)]" by (simp add: s'_def)
  have last: "xs ! 288 \<in> set xs" "timestamp (xs ! 288) = (now div 300) * 300"
    using series_nth(2,3) [OF xs, of 288] by (simp_all add: start_div)
  have ex: "\<exists>p\<in>set xs. timestamp p \<le> now \<and> now < timestamp p + 300"
  proof
    show "xs ! 288 \<in> set xs" by (rule last)
    show "timestamp (xs ! 288) \<le> now \<and> now < timestamp (xs ! 288) + 300"
      unfolding last(2) using bucket_iff [of "(now div 300) * 300" now] by simp
  qed
  have nz: "\<forall>p\<in>set xs. timestamp p \<le> now \<and> now < timestamp p + 300 \<longrightarrow> count p \<noteq> 0"
  proof (intro ballI impI)
    fix p
    assume p: "p \<in> set xs" and here: "timestamp p \<le> now \<and> now < timestamp p + 300"
    have "0 \<le> sum_list (map (\<lambda>(n, ts, cnt). cnt)
          (filter (\<lambda>(n, ts, cnt). n = x \<and> now - 86400 \<le> ts \<and>
                                    timestamp p \<le> ts \<and> ts < timestamp p + 300) (rows s)))"
      using assms(4) by (intro filtered_sum_nonneg) auto
    with here assms(2) show "count p \<noteq> 0"
      by (simp add: series_count [OF xs p] rows')
  qed
  have "0 \<le> sum_list (map (\<lambda>(n, ts, cnt). cnt)
       (filter (\<lambda>(n, ts, cnt). n = x \<and> now - 86400 \<le> ts \<and> ts div 300 \<le> now div 300) (rows s)))"
    using assms(4) by (intro filtered_sum_nonneg) auto
  then have total: "c \<le> sum_list (map count xs)"
    by (simp add: series_total [OF xs] rows')
  from inc xs ex nz total show ?thesis by blast
qed

theorem record_then_series_witness:
  "\<exists>s' xs. increment None ''x'' 5 1000 (init_db [(''x'', 950, 2), (''x'', - 90000, - 4)]) = (Returned (), s') \<and>
           get_data None ''x'' 1000 s' = (Returned xs, s') \<and>
           (\<exists>p\<in>set xs. timestamp p \<le> 1000 \<and> 1000 < timestamp p + 300) \<and>
           5 \<le> sum_list (map count xs)"
proof -
  define s where "s = init_db [(''x'', 950, 2), (''x'', - 90000, - 4)]"
  have h1: "\<not> lock_held s" by (simp add: s_def init_db_def)
  have h2: "(1::int) \<le> 5" and h2': "(5::int) < 2 ^ 63" by simp_all
  have h3: "\<forall>(n, ts, cnt)\<in>set (rows s). n = ''x'' \<and> 1000 - 86400 \<le> ts \<longrightarrow> 0 \<le> cnt"
    by (simp add: s_def init_db_def)
  from record_then_series [OF h1 h2 h2' h3] show ?thesis
    unfolding s_def by blast
qed

theorem record_then_series_counterexample:
  "fst (increment None ''x'' 5 1000 (snd (increment None ''x'' (- 5) 1000 (init_db [])))) = Returned () \<and>
   timestamp ((the_result (fst (get_data None ''x'' 1000
      (snd (increment None ''x'' 5 1000 (snd (increment None ''x'' (- 5) 1000 (init_db [])))))))) ! 288) = 900 \<and>
   count ((the_result (fst (get_data None ''x'' 1000
      (snd (increment None ''x'' 5 1000 (snd (increment None ''x'' (- 5) 1000 (init_db [])))))))) ! 288) = 0 \<and>
   sum_list (map count (the_result (fst (get_data None ''x'' 1000
      (snd (increment None ''x'' 5 1000 (snd (increment None ''x'' (- 5) 1000 (init_db []))))))))) = 0"
proof -
  define s where "s = snd (increment None ''x'' 5 1000 (snd (increment None ''x'' (- 5) 1000 (init_db []))))"
  define xs where "xs = the_result (fst (get_data None ''x'' 1000 s))"
  have inc: "fst (increment None ''x'' 5 1000 (snd (increment None ''x'' (- 5) 1000 (init_db [])))) = Returned ()"
    by (simp add: increment_def init_db_def sqlite_integer_def)
  have rows: "rows s = [(''x'', 1000, - 5), (''x'', 1000, 5)]"
    by (simp add: s_def increment_def init_db_def sqlite_integer_def)
  have xs: "get_data None ''x'' 1000 s = (Returned xs, s)"
    by (simp add: xs_def get_data_ok)
  have mem: "xs ! 288 \<in> set xs" and ts: "timestamp (xs ! 288) = 900"
    using series_nth(2,3) [OF xs, of 288] by simp_all
  have cnt: "count (xs ! 288) = 0"
    by (simp add: series_count [OF xs mem] ts rows)
  have total: "sum_list (map count xs) = 0"
    by (simp add: series_total [OF xs] rows)
  from inc ts cnt total show ?thesis unfolding xs_def s_def by simp
qed

text \<open>
  C8. As stated the claim fails: no operation has a handler, so a storage call
  that raises inside \<^verbatim>\<open>increment\<close> leaves the lock held and the connection open
  (and the next \<^verbatim>\<open>increment\<close> blocks). What holds is the release on the path on
  which no storage call raises (for \<^verbatim>\<open>increment\<close> this needs a count that fits
  the storage's 64 bits): each operation returns with the lock free and as many
  connections open as before.
\<close>

theorem release_on_success:
  assumes "\<not> lock_held s" and "- (2 ^ 63) \<le> cnt" and "cnt < 2 ^ 63"
  shows "fst (increment None name cnt now s) = Returned () \<and>
         \<not> lock_held (snd (increment None name cnt now s)) \<and>
         open_conns (snd (increment None name cnt now s)) = open_conns s \<and>
         (\<exists>ns. fst (get_names None s) = Returned ns) \<and>
         \<not> lock_held (snd (get_names None s)) \<and>
         open_conns (snd (get_names None s)) = open_conns s \<and>
         (\<exists>xs. fst (get_data None name now s) = Returned xs) \<and>
         \<not> lock_held (snd (get_data None name now s)) \<and>
         open_conns (snd (get_data None name now s)) = open_conns s"
  using assms by (simp add: increment_ok sqlite_integer_def get_names_ok get_data_ok)

theorem release_on_success_witness:
  "fst (increment None ''x'' 1 1000 (init_db [])) = Returned () \<and>
   \<not> lock_held (snd (increment None ''x'' 1 1000 (init_db []))) \<and>
   open_conns (snd (increment None ''x'' 1 1000 (init_db []))) = 0 \<and>
   open_conns (snd (get_names None (init_db []))) = 0 \<and>
   open_conns (snd (get_data None ''x'' 1000 (init_db []))) = 0"
proof -
  have h: "\<not> lock_held (init_db [])" by (simp add: init_db_def)
  have r: "- (2 ^ 63) \<le> (1::int)" "(1::int) < 2 ^ 63" by simp_all
  have "open_conns (init_db []) = 0" by (simp add: init_db_def)
  with release_on_success [OF h r, of "''x''" 1000] show ?thesis by simp
qed

theorem release_on_failure_counterexample:
  "fst (increment (Some Execute) ''x'' 1 1000 (init_db [])) = Raised (StorageError Execute) \<and>
   lock_held (snd (increment (Some Execute) ''x'' 1 1000 (init_db []))) \<and>
   open_conns (snd (increment (Some Execute) ''x'' 1 1000 (init_db []))) = 1 \<and>
   fst (increment None ''x'' 1 1001 (snd (increment (Some Execute) ''x'' 1 1000 (init_db [])))) = Blocked"
  by (simp add: increment_def init_db_def)

end
